theory Spec2Isabelle
  imports Main
begin

section \<open>The CSS selector builder of 06-objects-tasks.js\<close>

subsection \<open>Errors and the exception discipline\<close>

text \<open>
  Both checks of the class throw a plain \<open>Error\<close> that carries a message; the two
  messages are the only thing that tells the errors apart.
\<close>

datatype error = Error string

definition UniquenessError :: error where
  "UniquenessError =
     Error ''Element, id and pseudo-element should not occur more then one time inside the selector''"

definition OrderError :: error where
  "OrderError =
     Error ''Selector parts should be arranged in the following order: element, id, class, attribute, pseudo-class, pseudo-element''"

text \<open>
  A method is an action: a function from the state it runs on to its outcome (\<open>Inl\<close> a thrown
  error, \<open>Inr\<close> the returned value) paired with the state it leaves behind. The state
  is returned on a throw as well: a JavaScript exception does not undo the assignments
  made before it.
\<close>

type_synonym ('s, 'a) action = "'s \<Rightarrow> (error + 'a) \<times> 's"

definition returns :: "'a \<Rightarrow> ('s, 'a) action" where
  "returns a s = (Inr a, s)"

definition throw :: "error \<Rightarrow> ('s, 'a) action" where
  "throw e s = (Inl e, s)"

definition andThen :: "('s, 'a) action \<Rightarrow> ('a \<Rightarrow> ('s, 'b) action) \<Rightarrow> ('s, 'b) action" where
  "andThen m f s = (case m s of (Inl e, s') \<Rightarrow> (Inl e, s') | (Inr a, s') \<Rightarrow> f a s')"

subsection \<open>class CSSSelectorBuilder\<close>

text \<open>
  The five fields the constructor sets. \<open>weight\<close> is \<open>null\<close> (\<open>None\<close>) until the first
  successful append, and afterwards one of the integers the methods pass. The tokens and
  prefixes the methods receive are strings.
\<close>

record CSSSelectorBuilder =
  string :: string
  existsElement :: bool
  existsId :: bool
  existsPseudoElement :: bool
  weight :: "int option"

definition constructor :: CSSSelectorBuilder where
  "constructor =
     \<lparr>string = '''', existsElement = False, existsId = False,
      existsPseudoElement = False, weight = None\<rparr>"

text \<open>
  \<open>isDuplicate\<close> starts out \<open>undefined\<close> (\<open>None\<close>) and is assigned by whichever of
  the three tests matches; only \<open>true\<close> is truthy.
\<close>

definition checkIfDuplicate :: "string \<Rightarrow> (CSSSelectorBuilder, unit) action" where
  "checkIfDuplicate selectorType this =
     (let isDuplicate = None;
          isDuplicate = (if selectorType = ''element'' then Some (existsElement this) else isDuplicate);
          isDuplicate = (if selectorType = ''id'' then Some (existsId this) else isDuplicate);
          isDuplicate = (if selectorType = ''pseudo-element'' then Some (existsPseudoElement this)
                         else isDuplicate)
      in if isDuplicate = Some True then throw UniquenessError this else returns () this)"

text \<open>The relational comparison \<open>w < this.weight\<close> converts \<open>null\<close> to the number 0.\<close>

definition toNumber :: "int option \<Rightarrow> int" where
  "toNumber w = (case w of None \<Rightarrow> 0 | Some n \<Rightarrow> n)"

definition checkSelectorWeight :: "int \<Rightarrow> (CSSSelectorBuilder, unit) action" where
  "checkSelectorWeight w this =
     (if w < toNumber (weight this) then throw OrderError this
      else returns () (this\<lparr>weight := Some w\<rparr>))"

definition setValue :: "string \<Rightarrow> string \<Rightarrow> (CSSSelectorBuilder, unit) action" where
  "setValue v selector this = returns () (this\<lparr>string := string this @ selector @ v\<rparr>)"

text \<open>
  The append methods take an optional second parameter with a default; \<open>None\<close> is the
  call that leaves it out, as every call of the facade does.
\<close>

definition orDefault :: "string option \<Rightarrow> string \<Rightarrow> string" where
  "orDefault selector d = (case selector of None \<Rightarrow> d | Some s \<Rightarrow> s)"

definition element :: "string \<Rightarrow> string option \<Rightarrow> (CSSSelectorBuilder, unit) action" where
  "element v selector =
     andThen (checkIfDuplicate ''element'') (\<lambda>_.
     andThen (checkSelectorWeight 1) (\<lambda>_.
     andThen (\<lambda>this. returns () (this\<lparr>existsElement := True\<rparr>)) (\<lambda>_.
     setValue v (orDefault selector ''''))))"

definition id_part :: "string \<Rightarrow> string option \<Rightarrow> (CSSSelectorBuilder, unit) action" where
  "id_part v selector =
     andThen (checkIfDuplicate ''id'') (\<lambda>_.
     andThen (checkSelectorWeight 10) (\<lambda>_.
     andThen (\<lambda>this. returns () (this\<lparr>existsId := True\<rparr>)) (\<lambda>_.
     setValue v (orDefault selector ''#''))))"

definition class_part :: "string \<Rightarrow> string option \<Rightarrow> (CSSSelectorBuilder, unit) action" where
  "class_part v selector =
     andThen (checkSelectorWeight 100) (\<lambda>_.
     setValue v (orDefault selector ''.''))"

definition attr :: "string \<Rightarrow> string option \<Rightarrow> (CSSSelectorBuilder, unit) action" where
  "attr v selector =
     andThen (checkSelectorWeight 1000) (\<lambda>_.
     setValue (''['' @ v @ '']'') (orDefault selector ''''))"

definition pseudoClass :: "string \<Rightarrow> string option \<Rightarrow> (CSSSelectorBuilder, unit) action" where
  "pseudoClass v selector =
     andThen (checkSelectorWeight 10000) (\<lambda>_.
     setValue v (orDefault selector '':''))"

definition pseudoElement :: "string \<Rightarrow> string option \<Rightarrow> (CSSSelectorBuilder, unit) action" where
  "pseudoElement v selector =
     andThen (checkIfDuplicate ''pseudo-element'') (\<lambda>_.
     andThen (checkSelectorWeight 100000) (\<lambda>_.
     andThen (\<lambda>this. returns () (this\<lparr>existsPseudoElement := True\<rparr>)) (\<lambda>_.
     setValue v (orDefault selector ''::''))))"

definition stringify :: "(CSSSelectorBuilder, string) action" where
  "stringify this = returns (string this) (this\<lparr>string := ''''\<rparr>)"

subsection \<open>The append calls as data\<close>

text \<open>
  One value per append call: the category and the token handed over. \<open>call p selector\<close>
  is the method call with the optional second argument; \<open>appendPart p\<close> is the call
  with the token alone.
\<close>

datatype part =
    Element string
  | IdPart string
  | Class string
  | Attr string
  | PseudoClass string
  | PseudoElement string

fun call :: "part \<Rightarrow> string option \<Rightarrow> (CSSSelectorBuilder, unit) action" where
  "call (Element v) selector = element v selector"
| "call (IdPart v) selector = id_part v selector"
| "call (Class v) selector = class_part v selector"
| "call (Attr v) selector = attr v selector"
| "call (PseudoClass v) selector = pseudoClass v selector"
| "call (PseudoElement v) selector = pseudoElement v selector"

definition appendPart :: "part \<Rightarrow> (CSSSelectorBuilder, unit) action" where
  "appendPart p = call p None"

text \<open>The weight each method hands to \<open>checkSelectorWeight\<close>.\<close>

fun rank :: "part \<Rightarrow> int" where
  "rank (Element v) = 1"
| "rank (IdPart v) = 10"
| "rank (Class v) = 100"
| "rank (Attr v) = 1000"
| "rank (PseudoClass v) = 10000"
| "rank (PseudoElement v) = 100000"

text \<open>The flag \<open>checkIfDuplicate\<close> reads for the part; the repeatable parts read none.\<close>

fun alreadySet :: "part \<Rightarrow> CSSSelectorBuilder \<Rightarrow> bool" where
  "alreadySet (Element v) this = existsElement this"
| "alreadySet (IdPart v) this = existsId this"
| "alreadySet (PseudoElement v) this = existsPseudoElement this"
| "alreadySet p this = False"

fun singleton :: "part \<Rightarrow> bool" where
  "singleton (Element v) = True"
| "singleton (IdPart v) = True"
| "singleton (PseudoElement v) = True"
| "singleton p = False"

text \<open>
  A chain \<open>b.element(..).attr(..)...\<close> on one instance: the first throw ends it.
\<close>

fun chain :: "part list \<Rightarrow> (CSSSelectorBuilder, unit) action" where
  "chain [] = returns ()"
| "chain (p # ps) = andThen (appendPart p) (\<lambda>_. chain ps)"

subsection \<open>Objects by reference\<close>

text \<open>
  \<open>combine\<close> calls \<open>stringify\<close> on two other objects, which may be the same object or
  the receiver itself, so the instances live in a store. \<open>allocated\<close> counts the
  objects made so far; references below it are the live ones.
\<close>

type_synonym ref = nat

record heap =
  objs :: "ref \<Rightarrow> CSSSelectorBuilder"
  allocated :: nat

definition invoke :: "ref \<Rightarrow> (CSSSelectorBuilder, 'a) action \<Rightarrow> (heap, 'a) action" where
  "invoke r m h = (case m (objs h r) of (res, this') \<Rightarrow> (res, h\<lparr>objs := (objs h)(r := this')\<rparr>))"

text \<open>
  The template literal is the argument of \<open>setValue\<close>: both \<open>stringify\<close> calls run,
  left to right, before the receiver's \<open>string\<close> is read.
\<close>

definition combine :: "ref \<Rightarrow> ref \<Rightarrow> string \<Rightarrow> ref \<Rightarrow> (heap, ref) action" where
  "combine this selector1 combinator selector2 =
     andThen (invoke selector1 stringify) (\<lambda>s1.
     andThen (invoke selector2 stringify) (\<lambda>s2.
     andThen (invoke this (setValue (s1 @ '' '' @ combinator @ '' '' @ s2) '''')) (\<lambda>_.
     returns this)))"

subsection \<open>The facade cssSelectorBuilder\<close>

definition createObject :: "(heap, ref) action" where
  "createObject h =
     returns (allocated h)
       (h\<lparr>objs := (objs h)(allocated h := constructor), allocated := Suc (allocated h)\<rparr>)"

definition cssSelectorBuilder_element :: "string \<Rightarrow> (heap, ref) action" where
  "cssSelectorBuilder_element v =
     andThen createObject (\<lambda>newObject.
     andThen (invoke newObject (element v None)) (\<lambda>_. returns newObject))"

definition cssSelectorBuilder_id :: "string \<Rightarrow> (heap, ref) action" where
  "cssSelectorBuilder_id v =
     andThen createObject (\<lambda>newObject.
     andThen (invoke newObject (id_part v None)) (\<lambda>_. returns newObject))"

definition cssSelectorBuilder_class :: "string \<Rightarrow> (heap, ref) action" where
  "cssSelectorBuilder_class v =
     andThen createObject (\<lambda>newObject.
     andThen (invoke newObject (class_part v None)) (\<lambda>_. returns newObject))"

definition cssSelectorBuilder_attr :: "string \<Rightarrow> (heap, ref) action" where
  "cssSelectorBuilder_attr v =
     andThen createObject (\<lambda>newObject.
     andThen (invoke newObject (attr v None)) (\<lambda>_. returns newObject))"

definition cssSelectorBuilder_pseudoClass :: "string \<Rightarrow> (heap, ref) action" where
  "cssSelectorBuilder_pseudoClass v =
     andThen createObject (\<lambda>newObject.
     andThen (invoke newObject (pseudoClass v None)) (\<lambda>_. returns newObject))"

definition cssSelectorBuilder_pseudoElement :: "string \<Rightarrow> (heap, ref) action" where
  "cssSelectorBuilder_pseudoElement v =
     andThen createObject (\<lambda>newObject.
     andThen (invoke newObject (pseudoElement v None)) (\<lambda>_. returns newObject))"

definition cssSelectorBuilder_combine :: "ref \<Rightarrow> string \<Rightarrow> ref \<Rightarrow> (heap, ref) action" where
  "cssSelectorBuilder_combine selector1 combinator selector2 =
     andThen createObject (\<lambda>newObject. combine newObject selector1 combinator selector2)"

text \<open>The seven entry points as data, for statements about all of them.\<close>

datatype entry = Start part | Combined ref string ref

fun cssSelectorBuilder :: "entry \<Rightarrow> (heap, ref) action" where
  "cssSelectorBuilder (Start (Element v)) = cssSelectorBuilder_element v"
| "cssSelectorBuilder (Start (IdPart v)) = cssSelectorBuilder_id v"
| "cssSelectorBuilder (Start (Class v)) = cssSelectorBuilder_class v"
| "cssSelectorBuilder (Start (Attr v)) = cssSelectorBuilder_attr v"
| "cssSelectorBuilder (Start (PseudoClass v)) = cssSelectorBuilder_pseudoClass v"
| "cssSelectorBuilder (Start (PseudoElement v)) = cssSelectorBuilder_pseudoElement v"
| "cssSelectorBuilder (Combined selector1 combinator selector2) =
     cssSelectorBuilder_combine selector1 combinator selector2"

subsection \<open>Lifetimes\<close>

text \<open>
  Everything a caller can do with the builder: call a method on an object it holds, or
  an entry point of the facade. \<open>perform\<close> is the store after the call, whether it
  returned or threw (the caller may catch the error and go on); \<open>lifetime\<close> runs a
  program of such calls.
\<close>

datatype operation =
    Append ref part "string option"
  | Stringify ref
  | Combine ref ref string ref
  | Facade entry

fun perform :: "operation \<Rightarrow> heap \<Rightarrow> heap" where
  "perform (Append r p selector) h = snd (invoke r (call p selector) h)"
| "perform (Stringify r) h = snd (invoke r stringify h)"
| "perform (Combine this selector1 combinator selector2) h =
     snd (combine this selector1 combinator selector2 h)"
| "perform (Facade e) h = snd (cssSelectorBuilder e h)"

fun lifetime :: "operation list \<Rightarrow> heap \<Rightarrow> heap" where
  "lifetime [] h = h"
| "lifetime (x # xs) h = lifetime xs (perform x h)"

definition initial :: heap where
  "initial = \<lparr>objs = (\<lambda>r. constructor), allocated = 0\<rparr>"

text \<open>What \<open>r.stringify()\<close> returns in store \<open>h\<close>.\<close>

definition rendered :: "ref \<Rightarrow> heap \<Rightarrow> string" where
  "rendered r h = (case fst (invoke r stringify h) of Inr s \<Rightarrow> s | Inl e \<Rightarrow> '''')"

subsection \<open>The rendering the specification describes\<close>

text \<open>
  The fragment of one part: the element token verbatim, \<open>#\<close> before an id, \<open>.\<close> before
  a class, an attribute between \<open>[\<close> and \<open>]\<close>, \<open>:\<close> before a pseudo-class, \<open>::\<close> before
  a pseudo-element. \<open>category\<close> is the position in the fixed order, and \<open>rendering\<close>
  lists the fragments category by category, each category in insertion order.
\<close>

fun fragment :: "part \<Rightarrow> string" where
  "fragment (Element v) = v"
| "fragment (IdPart v) = ''#'' @ v"
| "fragment (Class v) = ''.'' @ v"
| "fragment (Attr v) = ''['' @ v @ '']''"
| "fragment (PseudoClass v) = '':'' @ v"
| "fragment (PseudoElement v) = ''::'' @ v"

fun category :: "part \<Rightarrow> nat" where
  "category (Element v) = 1"
| "category (IdPart v) = 2"
| "category (Class v) = 3"
| "category (Attr v) = 4"
| "category (PseudoClass v) = 5"
| "category (PseudoElement v) = 6"

definition fragmentsOf :: "nat \<Rightarrow> part list \<Rightarrow> string" where
  "fragmentsOf k ps = concat (map fragment (filter (\<lambda>p. category p = k) ps))"

definition rendering :: "part list \<Rightarrow> string" where
  "rendering ps =
     fragmentsOf 1 ps @ fragmentsOf 2 ps @ fragmentsOf 3 ps @
     fragmentsOf 4 ps @ fragmentsOf 5 ps @ fragmentsOf 6 ps"

text \<open>Two states of one object that differ at most in the accumulated text.\<close>

definition sameButString :: "CSSSelectorBuilder \<Rightarrow> CSSSelectorBuilder \<Rightarrow> bool" where
  "sameButString a b =
     (existsElement b = existsElement a \<and> existsId b = existsId a \<and>
      existsPseudoElement b = existsPseudoElement a \<and> weight b = weight a)"

text \<open>
  \<open>grown a b\<close>: state \<open>b\<close> of an object keeps every flag that \<open>a\<close> has set, and its
  weight is not below that of \<open>a\<close>.
\<close>

definition grown :: "CSSSelectorBuilder \<Rightarrow> CSSSelectorBuilder \<Rightarrow> bool" where
  "grown a b =
     ((existsElement b \<or> \<not> existsElement a) \<and> (existsId b \<or> \<not> existsId a) \<and>
      (existsPseudoElement b \<or> \<not> existsPseudoElement a) \<and>
      toNumber (weight a) \<le> toNumber (weight b))"

text \<open>
  What the flags and the weight of an object say about each other: a flag that is set
  means a weight of at least that rank, and a weight equal to the rank of a once-only
  part means its flag is set.
\<close>

definition coherent :: "CSSSelectorBuilder \<Rightarrow> bool" where
  "coherent this =
     ((if existsElement this then 1 \<le> toNumber (weight this)
       else toNumber (weight this) \<noteq> 1) \<and>
      (if existsId this then 10 \<le> toNumber (weight this)
       else toNumber (weight this) \<noteq> 10) \<and>
      (if existsPseudoElement this then 100000 \<le> toNumber (weight this)
       else toNumber (weight this) \<noteq> 100000))"

text \<open>
  The sequences the specification allows: categories in non-decreasing order, and element,
  id and pseudo-element at most once each.
\<close>

definition once :: "nat \<Rightarrow> part list \<Rightarrow> bool" where
  "once k ps = (length (filter (\<lambda>p. category p = k) ps) \<le> 1)"

definition wellOrdered :: "part list \<Rightarrow> bool" where
  "wellOrdered ps = (sorted (map category ps) \<and> once 1 ps \<and> once 2 ps \<and> once 6 ps)"

section \<open>Properties\<close>

subsection \<open>What each method does, in one equation\<close>

lemmas method_defs = andThen_def returns_def throw_def checkIfDuplicate_def
  checkSelectorWeight_def setValue_def

lemma errors_differ: "UniquenessError \<noteq> OrderError"
  by (simp add: UniquenessError_def OrderError_def)

lemma element_eq:
  "element v sel this =
     (if existsElement this then (Inl UniquenessError, this)
      else if 1 < toNumber (weight this) then (Inl OrderError, this)
      else (Inr (), this\<lparr>weight := Some 1, existsElement := True,
                         string := string this @ orDefault sel '''' @ v\<rparr>))"
  by (simp add: element_def method_defs)

lemma id_part_eq:
  "id_part v sel this =
     (if existsId this then (Inl UniquenessError, this)
      else if 10 < toNumber (weight this) then (Inl OrderError, this)
      else (Inr (), this\<lparr>weight := Some 10, existsId := True,
                         string := string this @ orDefault sel ''#'' @ v\<rparr>))"
  by (simp add: id_part_def method_defs)

lemma class_part_eq:
  "class_part v sel this =
     (if 100 < toNumber (weight this) then (Inl OrderError, this)
      else (Inr (), this\<lparr>weight := Some 100,
                         string := string this @ orDefault sel ''.'' @ v\<rparr>))"
  by (simp add: class_part_def method_defs)

lemma attr_eq:
  "attr v sel this =
     (if 1000 < toNumber (weight this) then (Inl OrderError, this)
      else (Inr (), this\<lparr>weight := Some 1000,
                         string := string this @ orDefault sel '''' @ ''['' @ v @ '']''\<rparr>))"
  by (simp add: attr_def method_defs)

lemma pseudoClass_eq:
  "pseudoClass v sel this =
     (if 10000 < toNumber (weight this) then (Inl OrderError, this)
      else (Inr (), this\<lparr>weight := Some 10000,
                         string := string this @ orDefault sel '':'' @ v\<rparr>))"
  by (simp add: pseudoClass_def method_defs)

lemma pseudoElement_eq:
  "pseudoElement v sel this =
     (if existsPseudoElement this then (Inl UniquenessError, this)
      else if 100000 < toNumber (weight this) then (Inl OrderError, this)
      else (Inr (), this\<lparr>weight := Some 100000, existsPseudoElement := True,
                         string := string this @ orDefault sel ''::'' @ v\<rparr>))"
  by (simp add: pseudoElement_def method_defs)

lemmas append_eqs = element_eq id_part_eq class_part_eq attr_eq pseudoClass_eq pseudoElement_eq

lemma call_outcome:
  "fst (call p sel this) =
     (if alreadySet p this then Inl UniquenessError
      else if rank p < toNumber (weight this) then Inl OrderError else Inr ())"
  by (cases p) (simp_all add: append_eqs)

lemma call_throw_state:
  "alreadySet p this \<or> rank p < toNumber (weight this) \<Longrightarrow> snd (call p sel this) = this"
  by (cases p) (auto simp add: append_eqs)

lemma call_isl_state: "fst (call p sel this) = Inl e \<Longrightarrow> snd (call p sel this) = this"
  by (cases p) (auto simp add: append_eqs split: if_splits)

lemma call_weight:
  "weight (snd (call p sel this)) =
     (if alreadySet p this \<or> rank p < toNumber (weight this) then weight this else Some (rank p))"
  by (cases p) (simp_all add: append_eqs)

lemma call_string_None:
  "string (snd (call p None this)) =
     (if alreadySet p this \<or> rank p < toNumber (weight this) then string this
      else string this @ fragment p)"
  by (cases p) (simp_all add: append_eqs orDefault_def)

lemma call_sets:
  "fst (call p sel this) = Inr () \<Longrightarrow> singleton p \<Longrightarrow> alreadySet p (snd (call p sel this))"
  by (cases p) (auto simp add: append_eqs split: if_splits)

lemma rank_category: "rank p \<le> rank q \<longleftrightarrow> category p \<le> category q"
  by (cases p; cases q) simp_all

lemma rank_pos: "0 < rank p"
  by (cases p) simp_all

subsection \<open>Chains of appends and their rendering\<close>

lemma chain_Cons_ok:
  "fst (call p None s) = Inr () \<Longrightarrow> chain (p # ps) s = chain ps (snd (call p None s))"
  by (cases "call p None s") (simp add: appendPart_def andThen_def)

lemma chain_Cons_throw:
  "fst (call p None s) = Inl e \<Longrightarrow> chain (p # ps) s = (Inl e, snd (call p None s))"
  by (cases "call p None s") (simp add: appendPart_def andThen_def)

lemma chain_Cons_returns:
  "fst (chain (p # ps) s) = Inr () \<Longrightarrow>
     fst (call p None s) = Inr () \<and> fst (chain ps (snd (call p None s))) = Inr ()"
proof (cases "fst (call p None s)")
  case (Inl e)
  assume "fst (chain (p # ps) s) = Inr ()"
  with chain_Cons_throw [OF Inl] show ?thesis by simp
next
  case (Inr u)
  assume "fst (chain (p # ps) s) = Inr ()"
  with chain_Cons_ok [of p s ps] Inr show ?thesis by simp
qed

lemma chain_returns:
  "fst (chain ps s) = Inr () \<Longrightarrow>
     string (snd (chain ps s)) = string s @ concat (map fragment ps) \<and>
     sorted (map category ps) \<and>
     (\<forall>p \<in> set ps. toNumber (weight s) \<le> rank p)"
proof (induction ps arbitrary: s)
  case Nil
  then show ?case by (simp add: returns_def)
next
  case (Cons p ps)
  let ?s = "snd (call p None s)"
  from Cons.prems have ok: "fst (call p None s) = Inr ()" and rest: "fst (chain ps ?s) = Inr ()"
    using chain_Cons_returns by blast+
  from ok have here: "\<not> alreadySet p s" "\<not> rank p < toNumber (weight s)"
    by (auto simp add: call_outcome split: if_splits)
  then have w: "weight ?s = Some (rank p)" and str: "string ?s = string s @ fragment p"
    by (simp_all add: call_weight call_string_None)
  from Cons.IH [OF rest] w str
  have ih: "string (snd (chain ps ?s)) = string s @ fragment p @ concat (map fragment ps)"
    "sorted (map category ps)" "\<forall>q \<in> set ps. rank p \<le> rank q"
    by (simp_all add: toNumber_def)
  from ih(3) have "\<forall>q \<in> set ps. category p \<le> category q"
    by (simp add: rank_category)
  moreover from ih(3) here(2) have "\<forall>q \<in> set (p # ps). toNumber (weight s) \<le> rank q"
    by fastforce
  ultimately show ?case
    using ih(1,2) chain_Cons_ok [OF ok, of ps] by simp
qed

lemma fragmentsOf_Nil: "fragmentsOf k [] = []"
  by (simp add: fragmentsOf_def)

lemma fragmentsOf_Cons:
  "fragmentsOf k (p # ps) =
     (if category p = k then fragment p @ fragmentsOf k ps else fragmentsOf k ps)"
  by (simp add: fragmentsOf_def)

lemma fragmentsOf_below:
  "\<forall>q \<in> set ps. n \<le> category q \<Longrightarrow> k < n \<Longrightarrow> fragmentsOf k ps = []"
  by (induction ps) (auto simp add: fragmentsOf_def)

lemma rendering_Cons:
  assumes "\<forall>q \<in> set ps. category p \<le> category q"
  shows "rendering (p # ps) = fragment p @ rendering ps"
proof (cases p)
  case (Element v)
  then show ?thesis by (simp add: rendering_def fragmentsOf_Cons)
next
  case (IdPart v)
  with assms have "fragmentsOf 1 ps = []" by (intro fragmentsOf_below [where n = 2]) simp_all
  with IdPart show ?thesis by (simp add: rendering_def fragmentsOf_Cons)
next
  case (Class v)
  with assms have "\<forall>k \<in> {1, 2}. fragmentsOf k ps = []"
    by (auto intro!: fragmentsOf_below [where n = 3])
  with Class show ?thesis by (simp add: rendering_def fragmentsOf_Cons)
next
  case (Attr v)
  with assms have "\<forall>k \<in> {1, 2, 3}. fragmentsOf k ps = []"
    by (auto intro!: fragmentsOf_below [where n = 4])
  with Attr show ?thesis by (simp add: rendering_def fragmentsOf_Cons)
next
  case (PseudoClass v)
  with assms have "\<forall>k \<in> {1, 2, 3, 4}. fragmentsOf k ps = []"
    by (auto intro!: fragmentsOf_below [where n = 5])
  with PseudoClass show ?thesis by (simp add: rendering_def fragmentsOf_Cons)
next
  case (PseudoElement v)
  with assms have "\<forall>k \<in> {1, 2, 3, 4, 5}. fragmentsOf k ps = []"
    by (auto intro!: fragmentsOf_below [where n = 6])
  with PseudoElement show ?thesis by (simp add: rendering_def fragmentsOf_Cons)
qed

lemma sorted_rendering: "sorted (map category ps) \<Longrightarrow> concat (map fragment ps) = rendering ps"
proof (induction ps)
  case Nil
  show ?case by (simp add: rendering_def fragmentsOf_Nil)
next
  case (Cons p ps)
  then show ?case by (simp add: rendering_Cons)
qed

lemma once_Cons:
  "once k (p # ps) = (if category p = k then (\<forall>q \<in> set ps. category q \<noteq> k) else once k ps)"
  by (auto simp add: once_def filter_empty_conv)

lemma once_Nil: "once k []"
  by (simp add: once_def)

lemma singles_Cons:
  "(once 1 (p # ps) \<and> once 2 (p # ps) \<and> once 6 (p # ps)) =
     ((once 1 ps \<and> once 2 ps \<and> once 6 ps) \<and>
      (\<forall>q \<in> set ps. \<not> (singleton p \<and> category q = category p)))"
  by (cases p) (auto simp add: once_Cons once_def filter_empty_conv)

lemma call_alreadySet_after:
  "fst (call p sel s) = Inr () \<Longrightarrow>
     alreadySet q (snd (call p sel s)) =
       (alreadySet q s \<or> (singleton p \<and> category q = category p))"
  by (cases p; cases q) (auto simp add: append_eqs split: if_splits)

lemma chain_returns_iff_from:
  "(fst (chain ps s) = Inr ()) =
     (wellOrdered ps \<and> (\<forall>p \<in> set ps. \<not> alreadySet p s \<and> toNumber (weight s) \<le> rank p))"
proof (induction ps arbitrary: s)
  case Nil
  show ?case by (simp add: returns_def wellOrdered_def once_Nil)
next
  case (Cons p ps)
  let ?s = "snd (call p None s)"
  show ?case
  proof (cases "fst (call p None s) = Inr ()")
    case True
    then have here: "\<not> alreadySet p s" "toNumber (weight s) \<le> rank p"
      by (auto simp add: call_outcome split: if_splits)
    then have w: "toNumber (weight ?s) = rank p"
      by (simp add: call_weight toNumber_def)
    have "(fst (chain (p # ps) s) = Inr ()) = (fst (chain ps ?s) = Inr ())"
      by (simp only: chain_Cons_ok [OF True])
    also have "\<dots> = (wellOrdered ps \<and>
        (\<forall>q \<in> set ps. \<not> alreadySet q ?s \<and> rank p \<le> rank q))"
      by (simp add: Cons.IH w)
    also have "\<dots> = (wellOrdered ps \<and>
        (\<forall>q \<in> set ps. \<not> alreadySet q s \<and> \<not> (singleton p \<and> category q = category p) \<and>
                      category p \<le> category q))"
      by (simp add: call_alreadySet_after [OF True] rank_category)
    also have "\<dots> = (wellOrdered (p # ps) \<and>
        (\<forall>q \<in> set (p # ps). \<not> alreadySet q s \<and> toNumber (weight s) \<le> rank q))"
    proof -
      have "toNumber (weight s) \<le> rank q" if "category p \<le> category q" for q
        using that here(2) rank_category [of p q] by simp
      then show ?thesis
        unfolding wellOrdered_def singles_Cons using here
        by (auto simp add: rank_category)
    qed
    finally show ?thesis .
  next
    case False
    then obtain e where thrown: "fst (call p None s) = Inl e"
      by (cases "fst (call p None s)") simp_all
    then have "alreadySet p s \<or> rank p < toNumber (weight s)"
      by (auto simp add: call_outcome split: if_splits)
    moreover have "fst (chain (p # ps) s) = Inl e"
      by (simp only: chain_Cons_throw [OF thrown] fst_conv)
    ultimately show ?thesis
      by auto
  qed
qed

text \<open>
  Claim C1. A chain of appends on a new instance runs without a throw exactly when it
  respects the rank order (categories non-decreasing; element, id and pseudo-element at
  most once), and then \<open>stringify\<close> returns the fragments in the fixed category order
  (element verbatim, \<open>#id\<close>, \<open>.class\<close>, \<open>[attr]\<close>, \<open>:pseudoClass\<close>,
  \<open>::pseudoElement\<close>), the repeatable categories in insertion order. The example is
  \<open>element('a').attr('href$=".png"').pseudoClass('focus')\<close>.
\<close>

theorem stringify_renders_in_category_order:
  "(fst (chain ps constructor) = Inr ()) = wellOrdered ps \<and>
   (fst (chain ps constructor) = Inr () \<longrightarrow>
      fst (stringify (snd (chain ps constructor))) = Inr (rendering ps))"
proof (intro conjI impI)
  have "\<not> alreadySet p constructor \<and> toNumber (weight constructor) \<le> rank p" for p
    using rank_pos [of p] by (cases p) (simp_all add: constructor_def toNumber_def)
  then show "(fst (chain ps constructor) = Inr ()) = wellOrdered ps"
    by (simp add: chain_returns_iff_from)
next
  assume "fst (chain ps constructor) = Inr ()"
  from chain_returns [OF this]
  show "fst (stringify (snd (chain ps constructor))) = Inr (rendering ps)"
    by (simp add: stringify_def returns_def constructor_def sorted_rendering)
qed

theorem stringify_renders_in_category_order_witness:
  "wellOrdered [Element ''a'', Attr ''href$=\".png\"'', PseudoClass ''focus''] \<and>
   fst (chain [Element ''a'', Attr ''href$=\".png\"'', PseudoClass ''focus''] constructor) = Inr () \<and>
   fst (stringify (snd (chain [Element ''a'', Attr ''href$=\".png\"'', PseudoClass ''focus''] constructor)))
     = Inr ''a[href$=\".png\"]:focus''"
proof -
  let ?ps = "[Element ''a'', Attr ''href$=\".png\"'', PseudoClass ''focus'']"
  have ordered: "wellOrdered ?ps"
    by (simp add: wellOrdered_def once_def)
  have text_of: "rendering ?ps = ''a[href$=\".png\"]:focus''"
    by (simp add: rendering_def fragmentsOf_def)
  note renders = stringify_renders_in_category_order [of ?ps]
  from renders ordered have ok: "fst (chain ?ps constructor) = Inr ()"
    by blast
  with renders have "fst (stringify (snd (chain ?ps constructor))) = Inr (rendering ?ps)"
    by blast
  with ordered ok show ?thesis
    unfolding text_of by blast
qed

subsection \<open>The store\<close>

lemma stringify_eq: "stringify this = (Inr (string this), this\<lparr>string := ''''\<rparr>)"
  by (simp add: stringify_def returns_def)

lemma setValue_eq: "setValue v selector this = (Inr (), this\<lparr>string := string this @ selector @ v\<rparr>)"
  by (simp add: setValue_def returns_def)

lemma invoke_fst: "fst (invoke r m h) = fst (m (objs h r))"
  by (simp add: invoke_def split: prod.split)

lemma invoke_snd: "snd (invoke r m h) = h\<lparr>objs := (objs h)(r := snd (m (objs h r)))\<rparr>"
  by (simp add: invoke_def split: prod.split)

lemma invoke_objs: "objs (snd (invoke r m h)) = (objs h)(r := snd (m (objs h r)))"
  by (simp add: invoke_snd)

lemma invoke_allocated: "allocated (snd (invoke r m h)) = allocated h"
  by (simp add: invoke_snd)

lemma invoke_unchanged: "snd (m (objs h r)) = objs h r \<Longrightarrow> snd (invoke r m h) = h"
  by (simp add: invoke_snd)

lemma combine_eq:
  "combine this selector1 combinator selector2 h =
     (Inr this,
      snd (invoke this
             (setValue (string (objs h selector1) @ '' '' @ combinator @ '' '' @
                        string (objs (snd (invoke selector1 stringify h)) selector2)) '''')
             (snd (invoke selector2 stringify (snd (invoke selector1 stringify h))))))"
  by (simp add: combine_def andThen_def returns_def invoke_def stringify_eq setValue_eq)

lemma createObject_eq:
  "createObject h =
     (Inr (allocated h),
      h\<lparr>objs := (objs h)(allocated h := constructor), allocated := Suc (allocated h)\<rparr>)"
  by (simp add: createObject_def returns_def)

lemma call_constructor: "fst (call p None constructor) = Inr ()"
  by (simp add: call_outcome) (cases p; simp add: constructor_def toNumber_def)

declare cssSelectorBuilder.simps [simp del]

lemma facade_Start:
  "cssSelectorBuilder (Start p) h =
     (Inr (allocated h),
      h\<lparr>objs := (objs h)(allocated h := snd (call p None constructor)),
        allocated := Suc (allocated h)\<rparr>)"
proof -
  have "cssSelectorBuilder (Start p) h =
      andThen createObject (\<lambda>newObject.
        andThen (invoke newObject (call p None)) (\<lambda>_. returns newObject)) h"
    by (cases p)
      (simp_all add: cssSelectorBuilder.simps cssSelectorBuilder_element_def cssSelectorBuilder_id_def
        cssSelectorBuilder_class_def cssSelectorBuilder_attr_def
        cssSelectorBuilder_pseudoClass_def cssSelectorBuilder_pseudoElement_def)
  also have "\<dots> = (Inr (allocated h),
      h\<lparr>objs := (objs h)(allocated h := snd (call p None constructor)),
        allocated := Suc (allocated h)\<rparr>)"
    using call_constructor [of p]
    by (cases "call p None constructor")
      (simp add: andThen_def createObject_eq invoke_def returns_def)
  finally show ?thesis .
qed

lemma facade_Combined:
  "cssSelectorBuilder (Combined selector1 combinator selector2) h =
     combine (allocated h) selector1 combinator selector2
       (h\<lparr>objs := (objs h)(allocated h := constructor), allocated := Suc (allocated h)\<rparr>)"
  by (simp add: cssSelectorBuilder.simps cssSelectorBuilder_combine_def andThen_def
      createObject_eq)

lemma sameButString_trans: "sameButString a b \<Longrightarrow> sameButString b c \<Longrightarrow> sameButString a c"
  by (simp add: sameButString_def)

lemma invoke_stringify_cell: "sameButString (objs h r) (objs (snd (invoke r' stringify h)) r)"
  by (simp add: invoke_objs stringify_eq sameButString_def)

lemma invoke_setValue_cell: "sameButString (objs h r) (objs (snd (invoke r' (setValue v s) h)) r)"
  by (simp add: invoke_objs setValue_eq sameButString_def)

lemma combine_cell:
  "sameButString (objs h r) (objs (snd (combine this selector1 combinator selector2 h)) r)"
  unfolding combine_eq snd_conv
  by (blast intro: sameButString_trans invoke_stringify_cell invoke_setValue_cell)

lemma combine_allocated:
  "allocated (snd (combine this selector1 combinator selector2 h)) = allocated h"
  by (simp add: combine_eq invoke_allocated)

subsection \<open>What no operation undoes\<close>

lemma grown_refl: "grown a a"
  by (simp add: grown_def)

lemma grown_trans: "grown a b \<Longrightarrow> grown b c \<Longrightarrow> grown a c"
  by (auto simp add: grown_def)

lemma sameButString_grown: "sameButString a b \<Longrightarrow> grown a b"
  by (simp add: sameButString_def grown_def)

lemma call_grown: "grown this (snd (call p sel this))"
  by (cases p) (simp_all add: append_eqs grown_def toNumber_def)

lemma perform_allocated: "allocated h \<le> allocated (perform x h)"
proof (cases x)
  case (Facade e)
  then show ?thesis
    by (cases e) (simp_all add: facade_Start facade_Combined combine_allocated)
qed (simp_all add: invoke_allocated combine_allocated)

lemma perform_grown: "r < allocated h \<Longrightarrow> grown (objs h r) (objs (perform x h) r)"
proof (cases x)
  case (Append r' p sel)
  then show ?thesis by (simp add: invoke_objs call_grown grown_refl)
next
  case (Stringify r')
  then show ?thesis by (simp add: sameButString_grown invoke_stringify_cell)
next
  case (Combine this s1 c s2)
  then show ?thesis by (simp add: sameButString_grown combine_cell)
next
  case (Facade e)
  assume live: "r < allocated h"
  show ?thesis
  proof (cases e)
    case (Start p)
    with Facade live show ?thesis by (simp add: facade_Start grown_refl)
  next
    case (Combined s1 c s2)
    let ?h = "h\<lparr>objs := (objs h)(allocated h := constructor), allocated := Suc (allocated h)\<rparr>"
    from live have "objs ?h r = objs h r" by simp
    with combine_cell [of ?h r "allocated h" s1 c s2] Facade Combined
    show ?thesis by (simp add: facade_Combined sameButString_grown)
  qed
qed

lemma lifetime_allocated: "allocated h \<le> allocated (lifetime xs h)"
proof (induction xs arbitrary: h)
  case Nil
  show ?case by simp
next
  case (Cons x xs)
  from perform_allocated [of h x] Cons.IH [of "perform x h"] show ?case by simp
qed

lemma lifetime_grown: "r < allocated h \<Longrightarrow> grown (objs h r) (objs (lifetime xs h) r)"
proof (induction xs arbitrary: h)
  case Nil
  show ?case by (simp add: grown_refl)
next
  case (Cons x xs)
  from Cons.prems perform_allocated [of h x] have "r < allocated (perform x h)" by simp
  from Cons.IH [OF this] perform_grown [OF Cons.prems, of x] show ?case
    by (auto intro: grown_trans)
qed

lemma grown_alreadySet: "grown a b \<Longrightarrow> alreadySet p a \<Longrightarrow> alreadySet p b"
  by (cases p) (auto simp add: grown_def)

lemma category_alreadySet: "category q = category p \<Longrightarrow> alreadySet q this = alreadySet p this"
  by (cases p; cases q) simp_all

lemma category_rank: "category q = category p \<Longrightarrow> rank q = rank p"
  by (cases p; cases q) simp_all

lemma category_singleton: "category q = category p \<Longrightarrow> singleton q = singleton p"
  by (cases p; cases q) simp_all

lemma repeatable_not_set: "\<not> singleton p \<Longrightarrow> \<not> alreadySet p this"
  by (cases p) simp_all

text \<open>
  Claim C2, as amended. An append whose rank is strictly below the stored weight throws
  and leaves the instance as it was: the order error, unless the part is an element, id
  or pseudo-element that is already set, in which case the uniqueness check, which runs
  first, throws the uniqueness error. Over any program of operations the stored weight
  of a live object never decreases. The example is \<open>class\<close> after \<open>attr\<close>.
\<close>

theorem rank_never_decreases:
  "(rank p < toNumber (weight this) \<longrightarrow>
      fst (call p sel this) = Inl (if alreadySet p this then UniquenessError else OrderError) \<and>
      snd (call p sel this) = this) \<and>
   (r < allocated h \<longrightarrow>
      toNumber (weight (objs h r)) \<le> toNumber (weight (objs (lifetime xs h) r)))"
proof (intro conjI impI)
  assume "rank p < toNumber (weight this)"
  then show "fst (call p sel this) = Inl (if alreadySet p this then UniquenessError else OrderError)"
    and "snd (call p sel this) = this"
    by (simp_all add: call_outcome call_throw_state)
next
  assume "r < allocated h"
  from lifetime_grown [OF this, of xs]
  show "toNumber (weight (objs h r)) \<le> toNumber (weight (objs (lifetime xs h) r))"
    by (simp add: grown_def)
qed

lemmas eval_defs = appendPart_def andThen_def returns_def append_eqs constructor_def
  toNumber_def orDefault_def UniquenessError_def OrderError_def

theorem rank_never_decreases_witness:
  "rank (Class ''b'') < toNumber (weight (snd (chain [Attr ''a''] constructor))) \<and>
   fst (call (Class ''b'') None (snd (chain [Attr ''a''] constructor))) = Inl OrderError \<and>
   snd (call (Class ''b'') None (snd (chain [Attr ''a''] constructor))) =
     snd (chain [Attr ''a''] constructor) \<and>
   0 < allocated (lifetime [Facade (Start (Attr ''a''))] initial) \<and>
   toNumber (weight (objs (lifetime [Facade (Start (Attr ''a''))] initial) 0)) \<le>
     toNumber (weight (objs (lifetime [Append 0 (Class ''b'') None]
                              (lifetime [Facade (Start (Attr ''a''))] initial)) 0))"
proof -
  let ?s = "snd (chain [Attr ''a''] constructor)"
  let ?h = "lifetime [Facade (Start (Attr ''a''))] initial"
  have a: "rank (Class ''b'') < toNumber (weight ?s)"
    by (simp add: eval_defs)
  have b: "\<not> alreadySet (Class ''b'') ?s"
    by simp
  have c: "0 < allocated ?h"
    by (simp add: facade_Start initial_def)
  from rank_never_decreases [of "Class ''b''" ?s None 0 ?h "[Append 0 (Class ''b'') None]"] a b c
  show ?thesis by simp
qed

text \<open>
  Claim C2 as stated fails: after \<open>element('div').class('x')\<close> the call \<open>element('p')\<close>
  has a rank strictly below the stored one, and the error thrown is not the order error.
\<close>

theorem lower_rank_singleton_counterexample:
  "rank (Element ''p'') < toNumber (weight (snd (chain [Element ''div'', Class ''x''] constructor))) \<and>
   fst (appendPart (Element ''p'') (snd (chain [Element ''div'', Class ''x''] constructor)))
     = Inl UniquenessError \<and>
   fst (appendPart (Element ''p'') (snd (chain [Element ''div'', Class ''x''] constructor)))
     \<noteq> Inl OrderError"
  by (simp add: eval_defs)

text \<open>
  Claim C3. Once an element, id or pseudo-element append has returned on an object, every
  later append of the same category on that object throws the uniqueness error, whatever
  was done in between. A class, attribute or pseudo-class append never throws the
  uniqueness error: it returns exactly when its rank is not below the stored weight, so
  it can be repeated at once. The example is \<open>id\<close> twice on one instance.
\<close>

theorem singletons_once_repeatables_unchecked:
  "(singleton p \<and> category q = category p \<and> r < allocated h \<and>
      fst (invoke r (call p sel) h) = Inr () \<longrightarrow>
      fst (invoke r (call q sel') (lifetime xs (snd (invoke r (call p sel) h))))
        = Inl UniquenessError) \<and>
   (\<not> singleton c \<longrightarrow>
      fst (call c csel this) \<noteq> Inl UniquenessError \<and>
      (fst (call c csel this) = Inr ()) = (toNumber (weight this) \<le> rank c)) \<and>
   (\<not> singleton c \<and> category d = category c \<and> fst (call c csel this) = Inr () \<longrightarrow>
      fst (call d dsel (snd (call c csel this))) = Inr ())"
proof (intro conjI impI)
  assume a: "singleton p \<and> category q = category p \<and> r < allocated h \<and>
      fst (invoke r (call p sel) h) = Inr ()"
  let ?h = "snd (invoke r (call p sel) h)"
  from a have "alreadySet p (objs ?h r)"
    by (simp add: invoke_fst invoke_objs call_sets)
  moreover from a have "grown (objs ?h r) (objs (lifetime xs ?h) r)"
    by (intro lifetime_grown) (simp add: invoke_allocated)
  ultimately have "alreadySet p (objs (lifetime xs ?h) r)"
    by (rule grown_alreadySet [rotated])
  with a have "alreadySet q (objs (lifetime xs ?h) r)"
    using category_alreadySet [of q p] by simp
  then show "fst (invoke r (call q sel') (lifetime xs ?h)) = Inl UniquenessError"
    by (simp add: invoke_fst call_outcome)
next
  assume "\<not> singleton c"
  then have "\<not> alreadySet c this" by (rule repeatable_not_set)
  then show "fst (call c csel this) \<noteq> Inl UniquenessError"
    and "(fst (call c csel this) = Inr ()) = (toNumber (weight this) \<le> rank c)"
    using errors_differ by (auto simp add: call_outcome)
next
  assume a: "\<not> singleton c \<and> category d = category c \<and> fst (call c csel this) = Inr ()"
  then have "\<not> singleton d" using category_singleton [of d c] by simp
  then have d: "\<not> alreadySet d (snd (call c csel this))" by (rule repeatable_not_set)
  from a have rk: "rank d = rank c" using category_rank [of d c] by simp
  from a have "\<not> alreadySet c this" by (simp add: repeatable_not_set)
  with a have "weight (snd (call c csel this)) = Some (rank c)"
    by (auto simp add: call_weight call_outcome split: if_splits)
  with d rk show "fst (call d dsel (snd (call c csel this))) = Inr ()"
    by (simp add: call_outcome toNumber_def)
qed

theorem singletons_once_repeatables_unchecked_witness:
  "singleton (IdPart ''a'') \<and> category (IdPart ''b'') = category (IdPart ''a'') \<and>
   0 < allocated (lifetime [Facade (Start (Element ''p''))] initial) \<and>
   fst (invoke 0 (call (IdPart ''a'') None) (lifetime [Facade (Start (Element ''p''))] initial))
     = Inr () \<and>
   fst (invoke 0 (call (IdPart ''b'') None)
          (lifetime [Append 0 (Class ''c'') None, Stringify 0]
             (snd (invoke 0 (call (IdPart ''a'') None)
                     (lifetime [Facade (Start (Element ''p''))] initial)))))
     = Inl UniquenessError \<and>
   \<not> singleton (Class ''c'') \<and> category (Class ''d'') = category (Class ''c'') \<and>
   fst (call (Class ''c'') None constructor) \<noteq> Inl UniquenessError \<and>
   fst (call (Class ''c'') None constructor) = Inr () \<and>
   toNumber (weight constructor) \<le> rank (Class ''c'') \<and>
   fst (call (Class ''d'') None (snd (call (Class ''c'') None constructor))) = Inr ()"
proof -
  let ?h = "lifetime [Facade (Start (Element ''p''))] initial"
  have live: "0 < allocated ?h"
    by (simp add: facade_Start initial_def)
  have ok: "fst (invoke 0 (call (IdPart ''a'') None) ?h) = Inr ()"
    by (simp add: invoke_fst facade_Start initial_def eval_defs)
  have cls: "fst (call (Class ''c'') None constructor) = Inr ()"
    by (simp add: eval_defs)
  have facts: "singleton (IdPart ''a'')" "category (IdPart ''b'') = category (IdPart ''a'')"
    "\<not> singleton (Class ''c'')" "category (Class ''d'') = category (Class ''c'')"
    by simp_all
  from singletons_once_repeatables_unchecked
    [where p = "IdPart ''a''" and q = "IdPart ''b''" and r = 0 and h = ?h and sel = None
       and sel' = None and xs = "[Append 0 (Class ''c'') None, Stringify 0]"
       and c = "Class ''c''" and csel = None and this = constructor
       and d = "Class ''d''" and dsel = None]
    live ok cls facts
  show ?thesis by blast
qed

text \<open>
  Claim C5. \<open>stringify\<close> returns the accumulated text and leaves it empty, so a second
  \<open>stringify\<close> returns the empty string; the three flags and the weight are as before,
  and in the store nothing but the \<open>string\<close> field of the receiver changes.
\<close>

theorem stringify_drains:
  "fst (stringify this) = Inr (string this) \<and>
   string (snd (stringify this)) = '''' \<and>
   fst (stringify (snd (stringify this))) = Inr '''' \<and>
   existsElement (snd (stringify this)) = existsElement this \<and>
   existsId (snd (stringify this)) = existsId this \<and>
   existsPseudoElement (snd (stringify this)) = existsPseudoElement this \<and>
   weight (snd (stringify this)) = weight this \<and>
   snd (invoke r stringify h) = h\<lparr>objs := (objs h)(r := (objs h r)\<lparr>string := ''''\<rparr>)\<rparr>"
  by (simp add: stringify_eq invoke_snd)

text \<open>
  Claim C6. An append that throws leaves the receiver, and with it the whole store, exactly
  as before the call; the error is one of the two.
\<close>

theorem failed_append_changes_nothing:
  assumes "fst (invoke r (call p sel) h) = Inl e"
  shows "snd (invoke r (call p sel) h) = h \<and>
         snd (call p sel (objs h r)) = objs h r \<and>
         (e = UniquenessError \<or> e = OrderError)"
proof -
  from assms have thrown: "fst (call p sel (objs h r)) = Inl e"
    by (simp add: invoke_fst)
  then have same: "snd (call p sel (objs h r)) = objs h r"
    by (rule call_isl_state)
  from thrown have "e = UniquenessError \<or> e = OrderError"
    by (auto simp add: call_outcome split: if_splits)
  with same show ?thesis
    by (simp add: invoke_unchanged)
qed

theorem failed_append_changes_nothing_witness:
  "fst (invoke 0 (call (Element ''span'') None)
          (lifetime [Facade (Start (Element ''div'')), Append 0 (Attr ''x'') None] initial))
     = Inl UniquenessError \<and>
   snd (invoke 0 (call (Element ''span'') None)
          (lifetime [Facade (Start (Element ''div'')), Append 0 (Attr ''x'') None] initial))
     = lifetime [Facade (Start (Element ''div'')), Append 0 (Attr ''x'') None] initial"
proof -
  let ?h = "lifetime [Facade (Start (Element ''div'')), Append 0 (Attr ''x'') None] initial"
  have thrown: "fst (invoke 0 (call (Element ''span'') None) ?h) = Inl UniquenessError"
    by (simp add: invoke_fst invoke_objs facade_Start initial_def append_eqs constructor_def
        toNumber_def)
  from failed_append_changes_nothing [OF thrown] thrown show ?thesis by simp
qed

text \<open>
  Claim C10. For a part whose flag is already set the call throws the uniqueness error,
  whatever the stored weight: the uniqueness check runs before the order check. The
  example is \<open>id('a').class('b')\<close> followed by \<open>id('c')\<close>, which is also out of order.
\<close>

theorem uniqueness_checked_before_order:
  assumes "alreadySet p this"
  shows "fst (call p sel this) = Inl UniquenessError \<and> fst (call p sel this) \<noteq> Inl OrderError"
  using assms by (simp add: call_outcome errors_differ)

theorem uniqueness_checked_before_order_witness:
  "alreadySet (IdPart ''c'') (snd (chain [IdPart ''a'', Class ''b''] constructor)) \<and>
   rank (IdPart ''c'') < toNumber (weight (snd (chain [IdPart ''a'', Class ''b''] constructor))) \<and>
   fst (call (IdPart ''c'') None (snd (chain [IdPart ''a'', Class ''b''] constructor)))
     = Inl UniquenessError \<and>
   fst (call (IdPart ''c'') None (snd (chain [IdPart ''a'', Class ''b''] constructor)))
     \<noteq> Inl OrderError"
proof -
  let ?s = "snd (chain [IdPart ''a'', Class ''b''] constructor)"
  have set: "alreadySet (IdPart ''c'') ?s"
    by (simp add: appendPart_def andThen_def returns_def append_eqs constructor_def toNumber_def)
  have low: "rank (IdPart ''c'') < toNumber (weight ?s)"
    by (simp add: appendPart_def andThen_def returns_def append_eqs constructor_def toNumber_def)
  from uniqueness_checked_before_order [OF set, of None] set low show ?thesis by blast
qed

subsection \<open>combine and the facade\<close>

lemma rendered_eq: "rendered r h = string (objs h r)"
  by (simp add: rendered_def invoke_fst stringify_eq)

lemma cssSelectorBuilder_combine_eq:
  "cssSelectorBuilder_combine selector1 combinator selector2 h =
     combine (allocated h) selector1 combinator selector2 (snd (createObject h))"
  by (simp add: cssSelectorBuilder_combine_def andThen_def createObject_eq)

lemma combine_string_this:
  "this \<noteq> selector1 \<Longrightarrow> this \<noteq> selector2 \<Longrightarrow>
     string (objs (snd (combine this selector1 combinator selector2 h)) this) =
       string (objs h this) @ string (objs h selector1) @ '' '' @ combinator @ '' '' @
       (if selector2 = selector1 then '''' else string (objs h selector2))"
  by (simp add: combine_eq invoke_objs stringify_eq setValue_eq)

lemma combine_string_drained:
  "this \<noteq> r \<Longrightarrow> r = selector1 \<or> r = selector2 \<Longrightarrow>
     string (objs (snd (combine this selector1 combinator selector2 h)) r) = ''''"
  by (auto simp add: combine_eq invoke_objs stringify_eq setValue_eq)

lemma combine_other:
  "r \<noteq> this \<Longrightarrow> r \<noteq> selector1 \<Longrightarrow> r \<noteq> selector2 \<Longrightarrow>
     objs (snd (combine this selector1 combinator selector2 h)) r = objs h r"
  by (simp add: combine_eq invoke_objs)

text \<open>
  Claim C4. The composite returned by the facade's \<open>combine\<close> for two live objects renders
  as the rendering of the left one, a space, the combinator, a space and the rendering of
  the right one, the two renderings taken in that order; when the two are different objects
  the second rendering is the text the right one held before the call. The example is
  \<open>combine(element('div').id('main'), '+', element('table').id('data'))\<close>.
\<close>

theorem combine_renders_both_sides:
  assumes "left < allocated h" and "right < allocated h"
  shows "fst (andThen (cssSelectorBuilder_combine left c right)
                (\<lambda>composite. invoke composite stringify) h)
           = Inr (rendered left h @ '' '' @ c @ '' '' @
                  rendered right (snd (invoke left stringify h))) \<and>
         (left \<noteq> right \<longrightarrow> rendered right (snd (invoke left stringify h)) = rendered right h)"
proof -
  let ?h = "snd (createObject h)"
  from assms have fresh: "allocated h \<noteq> left" "allocated h \<noteq> right"
    by simp_all
  from assms have old: "objs ?h left = objs h left" "objs ?h right = objs h right"
    by (simp_all add: createObject_eq)
  have new: "string (objs ?h (allocated h)) = ''''"
    by (simp add: createObject_eq constructor_def)
  have "fst (andThen (cssSelectorBuilder_combine left c right)
                (\<lambda>composite. invoke composite stringify) h)
      = Inr (string (objs (snd (combine (allocated h) left c right ?h)) (allocated h)))"
    by (simp add: andThen_def cssSelectorBuilder_combine_eq combine_eq invoke_fst stringify_eq)
  also have "\<dots> = Inr (string (objs h left) @ '' '' @ c @ '' '' @
      (if right = left then '''' else string (objs h right)))"
    using combine_string_this [OF fresh, of c ?h] old new by simp
  also have "\<dots> = Inr (rendered left h @ '' '' @ c @ '' '' @
      rendered right (snd (invoke left stringify h)))"
    by (simp add: rendered_eq invoke_objs stringify_eq)
  finally show ?thesis
    by (simp add: rendered_eq invoke_objs)
qed

lemmas store_eval = facade_Start initial_def invoke_objs invoke_fst invoke_allocated append_eqs
  constructor_def
  toNumber_def orDefault_def

theorem combine_renders_both_sides_witness:
  "0 < allocated (lifetime [Facade (Start (Element ''div'')), Append 0 (IdPart ''main'') None,
                            Facade (Start (Element ''table'')), Append 1 (IdPart ''data'') None]
                    initial) \<and>
   1 < allocated (lifetime [Facade (Start (Element ''div'')), Append 0 (IdPart ''main'') None,
                            Facade (Start (Element ''table'')), Append 1 (IdPart ''data'') None]
                    initial) \<and>
   fst (andThen (cssSelectorBuilder_combine 0 ''+'' 1) (\<lambda>composite. invoke composite stringify)
          (lifetime [Facade (Start (Element ''div'')), Append 0 (IdPart ''main'') None,
                     Facade (Start (Element ''table'')), Append 1 (IdPart ''data'') None]
             initial))
     = Inr ''div#main + table#data''"
proof -
  let ?h = "lifetime [Facade (Start (Element ''div'')), Append 0 (IdPart ''main'') None,
                      Facade (Start (Element ''table'')), Append 1 (IdPart ''data'') None] initial"
  have live: "0 < allocated ?h" "1 < allocated ?h"
    by (simp_all add: facade_Start initial_def invoke_allocated)
  have l: "rendered 0 ?h = ''div#main''"
    by (simp add: rendered_eq store_eval)
  have "rendered (Suc 0) ?h = ''table#data''"
    by (simp add: rendered_eq store_eval)
  then have r: "rendered 1 (snd (invoke 0 stringify ?h)) = ''table#data''"
    by (simp add: rendered_eq invoke_objs)
  from combine_renders_both_sides [OF live, of "''+''"] live l r
  show ?thesis by simp
qed

text \<open>
  Claim C9. After the facade's \<open>combine\<close> on two live objects, \<open>stringify\<close> on either of
  them returns the empty string; the same holds for the method \<open>combine\<close> called on a
  receiver that is neither of its arguments.
\<close>

theorem combine_drains_its_arguments:
  assumes "left < allocated h" and "right < allocated h"
  shows "fst (invoke left stringify (snd (cssSelectorBuilder_combine left c right h))) = Inr '''' \<and>
         fst (invoke right stringify (snd (cssSelectorBuilder_combine left c right h))) = Inr '''' \<and>
         (this \<noteq> left \<and> this \<noteq> right \<longrightarrow>
            fst (invoke left stringify (snd (combine this left c right h))) = Inr '''' \<and>
            fst (invoke right stringify (snd (combine this left c right h))) = Inr '''')"
proof -
  from assms have fresh: "allocated h \<noteq> left" "allocated h \<noteq> right"
    by simp_all
  have "string (objs (snd (cssSelectorBuilder_combine left c right h)) left) = ''''"
    and "string (objs (snd (cssSelectorBuilder_combine left c right h)) right) = ''''"
    using fresh by (simp_all add: cssSelectorBuilder_combine_eq combine_string_drained)
  moreover have "this \<noteq> left \<and> this \<noteq> right \<longrightarrow>
      string (objs (snd (combine this left c right h)) left) = '''' \<and>
      string (objs (snd (combine this left c right h)) right) = ''''"
    by (simp add: combine_string_drained)
  ultimately show ?thesis
    by (simp add: invoke_fst stringify_eq)
qed

theorem combine_drains_its_arguments_witness:
  "0 < allocated (lifetime [Facade (Start (Element ''tr'')), Facade (Start (Element ''td''))]
                    initial) \<and>
   1 < allocated (lifetime [Facade (Start (Element ''tr'')), Facade (Start (Element ''td''))]
                    initial) \<and>
   fst (invoke 0 stringify
          (lifetime [Facade (Start (Element ''tr'')), Facade (Start (Element ''td''))] initial))
     = Inr ''tr'' \<and>
   fst (invoke 1 stringify
          (lifetime [Facade (Start (Element ''tr'')), Facade (Start (Element ''td''))] initial))
     = Inr ''td'' \<and>
   fst (invoke 0 stringify
          (snd (cssSelectorBuilder_combine 0 ''>'' 1
             (lifetime [Facade (Start (Element ''tr'')), Facade (Start (Element ''td''))]
                initial))))
     = Inr '''' \<and>
   fst (invoke 1 stringify
          (snd (cssSelectorBuilder_combine 0 ''>'' 1
             (lifetime [Facade (Start (Element ''tr'')), Facade (Start (Element ''td''))]
                initial))))
     = Inr ''''"
proof -
  let ?h = "lifetime [Facade (Start (Element ''tr'')), Facade (Start (Element ''td''))] initial"
  have live: "0 < allocated ?h" "1 < allocated ?h"
    by (simp_all add: facade_Start initial_def)
  have before: "fst (invoke 0 stringify ?h) = Inr ''tr''" "fst (invoke 1 stringify ?h) = Inr ''td''"
    by (simp_all add: stringify_eq store_eval)
  from combine_drains_its_arguments [OF live, of "''>''"] live before
  show ?thesis by simp
qed

text \<open>When the receiver is one of its own arguments, the composite lands in the drained text.\<close>

lemma combine_receiver_as_left:
  "this \<noteq> right \<Longrightarrow>
     fst (invoke this stringify (snd (combine this this c right h)))
       = Inr (string (objs h this) @ '' '' @ c @ '' '' @ string (objs h right))"
  by (simp add: combine_eq invoke_fst invoke_objs stringify_eq setValue_eq)

text \<open>
  Claim C8. Every entry point of the facade returns a reference that was not live before
  and makes it live. An append entry point leaves there the named method applied to a
  newly constructed object and touches no other object; \<open>combine\<close> leaves there the
  composite text set on a newly constructed object. A later call of any entry point, after
  any program of operations, returns a different reference, and a method invoked through
  one reference leaves the object behind every other reference as it was.
\<close>

theorem facade_makes_fresh_instance:
  "fst (cssSelectorBuilder e h) = Inr (allocated h) \<and>
   allocated (snd (cssSelectorBuilder e h)) = Suc (allocated h) \<and>
   snd (cssSelectorBuilder (Start p) h)
     = snd (invoke (allocated h) (call p None) (snd (createObject h))) \<and>
   objs (snd (cssSelectorBuilder (Start p) h))
     = (objs h)(allocated h := snd (call p None constructor)) \<and>
   snd (cssSelectorBuilder (Combined left c right) h)
     = snd (combine (allocated h) left c right (snd (createObject h))) \<and>
   (left < allocated h \<and> right < allocated h \<longrightarrow>
      objs (snd (cssSelectorBuilder (Combined left c right) h)) (allocated h)
        = snd (setValue (rendered left h @ '' '' @ c @ '' '' @
                         rendered right (snd (invoke left stringify h))) '''' constructor)) \<and>
   fst (cssSelectorBuilder e' (lifetime xs (snd (cssSelectorBuilder e h))))
     \<noteq> fst (cssSelectorBuilder e h) \<and>
   (r \<noteq> r' \<longrightarrow> objs (snd (invoke r m h)) r' = objs h r')"
proof -
  have ref: "fst (cssSelectorBuilder e h) = Inr (allocated h)" for e h
    by (cases e) (simp_all add: facade_Start facade_Combined combine_eq)
  have count: "allocated (snd (cssSelectorBuilder e h)) = Suc (allocated h)" for e h
    by (cases e)
      (simp_all add: facade_Start facade_Combined combine_eq invoke_allocated)
  have start: "snd (cssSelectorBuilder (Start p) h)
      = snd (invoke (allocated h) (call p None) (snd (createObject h)))"
    by (simp add: facade_Start createObject_eq invoke_snd)
  have start_objs: "objs (snd (cssSelectorBuilder (Start p) h))
      = (objs h)(allocated h := snd (call p None constructor))"
    by (simp add: facade_Start)
  have comb: "snd (cssSelectorBuilder (Combined left c right) h)
      = snd (combine (allocated h) left c right (snd (createObject h)))"
    by (simp add: facade_Combined createObject_eq)
  have comb_obj: "objs (snd (cssSelectorBuilder (Combined left c right) h)) (allocated h)
        = snd (setValue (rendered left h @ '' '' @ c @ '' '' @
                         rendered right (snd (invoke left stringify h))) '''' constructor)"
    if "left < allocated h \<and> right < allocated h"
    using that
    by (simp add: facade_Combined combine_eq invoke_objs stringify_eq setValue_eq rendered_eq)
  have "allocated h < allocated (lifetime xs (snd (cssSelectorBuilder e h)))"
    using lifetime_allocated [of "snd (cssSelectorBuilder e h)" xs] by (simp add: count)
  then have distinct: "fst (cssSelectorBuilder e' (lifetime xs (snd (cssSelectorBuilder e h))))
      \<noteq> fst (cssSelectorBuilder e h)"
    by (simp add: ref)
  have frame: "r \<noteq> r' \<longrightarrow> objs (snd (invoke r m h)) r' = objs h r'"
    by (simp add: invoke_objs)
  from ref count start start_objs comb comb_obj distinct frame show ?thesis
    by blast
qed

theorem facade_makes_fresh_instance_witness:
  "0 < allocated (lifetime [Facade (Start (Element ''div'')), Facade (Start (Class ''x''))] initial) \<and>
   1 < allocated (lifetime [Facade (Start (Element ''div'')), Facade (Start (Class ''x''))] initial) \<and>
   (0::nat) \<noteq> 1 \<and>
   fst (cssSelectorBuilder (Start (Attr ''a''))
          (lifetime [Facade (Start (Element ''div'')), Facade (Start (Class ''x''))] initial))
     = Inr 2 \<and>
   string (objs (snd (cssSelectorBuilder (Combined 0 ''~'' 1)
                   (lifetime [Facade (Start (Element ''div'')), Facade (Start (Class ''x''))]
                      initial))) 2)
     = ''div ~ .x'' \<and>
   fst (cssSelectorBuilder (Start (Element ''b''))
          (lifetime [Stringify 0]
             (snd (cssSelectorBuilder (Start (Attr ''a''))
                (lifetime [Facade (Start (Element ''div'')), Facade (Start (Class ''x''))]
                   initial)))))
     \<noteq> Inr 2 \<and>
   objs (snd (invoke 0 stringify
           (lifetime [Facade (Start (Element ''div'')), Facade (Start (Class ''x''))] initial))) 1
     = objs (lifetime [Facade (Start (Element ''div'')), Facade (Start (Class ''x''))] initial) 1"
proof -
  let ?h = "lifetime [Facade (Start (Element ''div'')), Facade (Start (Class ''x''))] initial"
  have count: "allocated ?h = 2"
    by (simp add: facade_Start initial_def)
  have l: "rendered 0 ?h = ''div''"
    by (simp add: rendered_eq store_eval)
  have "rendered (Suc 0) ?h = ''.x''"
    by (simp add: rendered_eq store_eval)
  then have r: "rendered 1 (snd (invoke 0 stringify ?h)) = ''.x''"
    by (simp add: rendered_eq invoke_objs)
  have live: "0 < allocated ?h \<and> 1 < allocated ?h" and apart: "(0::nat) \<noteq> 1"
    using count by simp_all
  note fresh = facade_makes_fresh_instance
    [where e = "Start (Attr ''a'')" and h = ?h and p = "PseudoClass ''hover''"
       and left = 0 and right = 1 and c = "''~''" and e' = "Start (Element ''b'')"
       and xs = "[Stringify 0]" and r = 0 and r' = 1 and m = stringify]
  from fresh have ref: "fst (cssSelectorBuilder (Start (Attr ''a'')) ?h) = Inr (allocated ?h)"
    by blast
  from fresh live
  have obj: "objs (snd (cssSelectorBuilder (Combined 0 ''~'' 1) ?h)) (allocated ?h)
      = snd (setValue (rendered 0 ?h @ '' '' @ ''~'' @ '' '' @
                       rendered 1 (snd (invoke 0 stringify ?h))) '''' constructor)"
    by blast
  from fresh
  have other: "fst (cssSelectorBuilder (Start (Element ''b''))
                 (lifetime [Stringify 0] (snd (cssSelectorBuilder (Start (Attr ''a'')) ?h))))
      \<noteq> fst (cssSelectorBuilder (Start (Attr ''a'')) ?h)"
    by blast
  from fresh apart
  have frame: "objs (snd (invoke 0 stringify ?h)) 1 = objs ?h 1"
    by blast
  from obj have composite: "string (objs (snd (cssSelectorBuilder (Combined 0 ''~'' 1) ?h)) 2)
      = ''div ~ .x''"
    unfolding count l r by (simp add: setValue_eq constructor_def)
  from other have other': "fst (cssSelectorBuilder (Start (Element ''b''))
                 (lifetime [Stringify 0] (snd (cssSelectorBuilder (Start (Attr ''a'')) ?h))))
      \<noteq> Inr 2"
    unfolding ref count .
  from ref have ref': "fst (cssSelectorBuilder (Start (Attr ''a'')) ?h) = Inr 2"
    unfolding count .
  from live apart ref' composite other' frame show ?thesis
    by blast
qed

subsection \<open>Flags and weight in every store a program can build\<close>

lemma coherent_constructor: "coherent constructor"
  by (simp add: coherent_def constructor_def toNumber_def)

lemma coherent_call: "coherent this \<Longrightarrow> coherent (snd (call p sel this))"
  by (cases p) (auto simp add: append_eqs coherent_def toNumber_def split: if_splits)

lemma coherent_sameButString: "sameButString a b \<Longrightarrow> coherent a \<Longrightarrow> coherent b"
  by (simp add: sameButString_def coherent_def)

lemma coherent_set_below:
  "coherent this \<Longrightarrow> alreadySet q this \<Longrightarrow> rank q \<le> toNumber (weight this)"
  by (cases q) (auto simp add: coherent_def split: if_splits)

lemma coherent_set_at:
  "coherent this \<Longrightarrow> singleton q \<Longrightarrow> rank q = toNumber (weight this) \<Longrightarrow> alreadySet q this"
  by (cases q) (auto simp add: coherent_def split: if_splits)

lemma perform_coherent:
  assumes "\<And>r. coherent (objs h r)"
  shows "coherent (objs (perform x h) r)"
proof (cases x)
  case (Append r' p sel)
  with assms show ?thesis by (simp add: invoke_objs coherent_call)
next
  case (Stringify r')
  with assms invoke_stringify_cell [of h r r'] show ?thesis
    by (auto intro: coherent_sameButString)
next
  case (Combine this s1 c s2)
  with assms combine_cell [of h r this s1 c s2] show ?thesis
    by (auto intro: coherent_sameButString)
next
  case (Facade e)
  show ?thesis
  proof (cases e)
    case (Start p)
    with Facade assms show ?thesis
      by (simp add: facade_Start coherent_call coherent_constructor)
  next
    case (Combined s1 c s2)
    let ?h = "h\<lparr>objs := (objs h)(allocated h := constructor), allocated := Suc (allocated h)\<rparr>"
    from assms have "coherent (objs ?h r)" by (simp add: coherent_constructor)
    with combine_cell [of ?h r "allocated h" s1 c s2] Facade Combined show ?thesis
      by (auto simp add: facade_Combined intro: coherent_sameButString)
  qed
qed

lemma lifetime_coherent: "(\<And>r. coherent (objs h r)) \<Longrightarrow> coherent (objs (lifetime xs h) r)"
proof (induction xs arbitrary: h r)
  case Nil
  then show ?case by simp
next
  case (Cons x xs)
  have "coherent (objs (perform x h) r')" for r'
    using Cons.prems by (rule perform_coherent)
  then show ?case by (simp add: Cons.IH)
qed

lemma reachable_coherent: "coherent (objs (lifetime xs initial) r)"
  by (rule lifetime_coherent) (simp add: initial_def coherent_constructor)

text \<open>
  Claim C7, as amended. When an append throws on an object of a store built by any program
  of operations, the store is unchanged and the object takes further appends: one of a
  rank below the stored weight throws; one of the same rank throws the uniqueness error
  for element, id and pseudo-element and returns for class, attribute and pseudo-class;
  one of a higher rank returns.
\<close>

theorem usable_after_error:
  assumes "fst (invoke r (call p sel) (lifetime xs initial)) = Inl e"
  shows "snd (invoke r (call p sel) (lifetime xs initial)) = lifetime xs initial \<and>
         fst (invoke r (call q qsel) (snd (invoke r (call p sel) (lifetime xs initial)))) =
           (if rank q < toNumber (weight (objs (lifetime xs initial) r))
            then Inl (if alreadySet q (objs (lifetime xs initial) r)
                      then UniquenessError else OrderError)
            else if rank q = toNumber (weight (objs (lifetime xs initial) r)) \<and> singleton q
            then Inl UniquenessError
            else Inr ())"
proof -
  let ?h = "lifetime xs initial"
  from assms have "snd (call p sel (objs ?h r)) = objs ?h r"
    by (simp add: invoke_fst call_isl_state)
  then have same: "snd (invoke r (call p sel) ?h) = ?h"
    by (rule invoke_unchanged)
  have inv: "coherent (objs ?h r)"
    by (rule reachable_coherent)
  have "fst (call q qsel (objs ?h r)) =
      (if rank q < toNumber (weight (objs ?h r))
       then Inl (if alreadySet q (objs ?h r) then UniquenessError else OrderError)
       else if rank q = toNumber (weight (objs ?h r)) \<and> singleton q
       then Inl UniquenessError
       else Inr ())"
    using coherent_set_below [OF inv, of q] coherent_set_at [OF inv, of q]
      repeatable_not_set [of q "objs ?h r"]
    by (auto simp add: call_outcome)
  with same show ?thesis
    by (simp add: invoke_fst)
qed

theorem usable_after_error_witness:
  "fst (invoke 0 (call (Element ''p'') None)
          (lifetime [Facade (Start (Attr ''x''))] initial)) = Inl OrderError \<and>
   snd (invoke 0 (call (Element ''p'') None) (lifetime [Facade (Start (Attr ''x''))] initial))
     = lifetime [Facade (Start (Attr ''x''))] initial \<and>
   rank (Attr ''y'') = toNumber (weight (objs (lifetime [Facade (Start (Attr ''x''))] initial) 0)) \<and>
   fst (invoke 0 (call (Attr ''y'') None)
          (snd (invoke 0 (call (Element ''p'') None)
             (lifetime [Facade (Start (Attr ''x''))] initial)))) = Inr ()"
proof -
  let ?h = "lifetime [Facade (Start (Attr ''x''))] initial"
  have thrown: "fst (invoke 0 (call (Element ''p'') None) ?h) = Inl OrderError"
    by (simp add: store_eval)
  have same: "rank (Attr ''y'') = toNumber (weight (objs ?h 0))"
    by (simp add: store_eval)
  note usable = usable_after_error [OF thrown, of "Attr ''y''" None]
  from usable have unchanged: "snd (invoke 0 (call (Element ''p'') None) ?h) = ?h"
    by (rule conjunct1)
  from usable [THEN conjunct2] same
  have "fst (invoke 0 (call (Attr ''y'') None) (snd (invoke 0 (call (Element ''p'') None) ?h)))
      = Inr ()"
    by simp
  with thrown unchanged same show ?thesis
    by blast
qed

text \<open>
  Claim C7 as stated fails: after \<open>class('a')\<close> the call \<open>id('x')\<close> throws, and the
  following \<open>class('b')\<close>, of the rank last appended, returns.
\<close>

theorem same_rank_after_error_counterexample:
  "fst (appendPart (IdPart ''x'') (snd (chain [Class ''a''] constructor))) = Inl OrderError \<and>
   rank (Class ''b'')
     = toNumber (weight (snd (appendPart (IdPart ''x'') (snd (chain [Class ''a''] constructor))))) \<and>
   fst (appendPart (Class ''b'')
          (snd (appendPart (IdPart ''x'') (snd (chain [Class ''a''] constructor))))) = Inr ()"
  by (simp add: eval_defs)

end
